theory Spec2Isabelle
  imports Complex_Main "HOL-Library.Sublist" "HOL-Library.Multiset"
begin

section \<open>Python values: exceptions, dictionaries, indexing\<close>

text \<open>
  The solver is Python. A raised exception is a value of type \<open>error\<close>, and a function
  that can raise returns \<open>error + 'a\<close> with \<open>Inl\<close> for the exception. Strings are
  character lists; a letter and a feedback symbol are single characters, as produced by
  \<^verbatim>\<open>zip(guess, feedback)\<close>. A \<^verbatim>\<open>float\<close> is modelled as an exact rational.
\<close>

datatype error = ValueError string | IndexError | KeyError

definition ebind :: "error + 'a \<Rightarrow> ('a \<Rightarrow> error + 'b) \<Rightarrow> error + 'b" where
  "ebind m f = (case m of Inl e \<Rightarrow> Inl e | Inr x \<Rightarrow> f x)"

text \<open>\<^verbatim>\<open>d[k]\<close> on a dictionary: KeyError when the key is absent.\<close>

definition dict_get :: "('k \<rightharpoonup> 'v) \<Rightarrow> 'k \<Rightarrow> error + 'v" where
  "dict_get d k = (case d k of None \<Rightarrow> Inl KeyError | Some v \<Rightarrow> Inr v)"

text \<open>\<^verbatim>\<open>word[i]\<close> for an index \<open>i \<ge> 0\<close>: IndexError beyond the end.\<close>

definition str_index :: "string \<Rightarrow> nat \<Rightarrow> error + char" where
  "str_index word i = (if i < length word then Inr (word ! i) else Inl IndexError)"

section \<open>The candidate filter: \<^verbatim>\<open>filter_possible_words\<close>\<close>

type_synonym guess_feedback = "(char \<times> char) list"

text \<open>
  The loop that fills \<^verbatim>\<open>correct_letter_counts\<close> and \<^verbatim>\<open>present_letter_counts\<close>: a letter
  seen for the first time is entered in both dictionaries with 0, then a \<^verbatim>\<open>'g'\<close>
  increments the first and a \<^verbatim>\<open>'y'\<close> the second.
\<close>

fun count_feedback ::
  "(char \<rightharpoonup> nat) \<Rightarrow> (char \<rightharpoonup> nat) \<Rightarrow> guess_feedback \<Rightarrow> error + ((char \<rightharpoonup> nat) \<times> (char \<rightharpoonup> nat))"
where
  "count_feedback cc pc [] = Inr (cc, pc)"
| "count_feedback cc pc ((letter, feedback) # rest) =
     (let cc1 = (if cc letter = None then cc(letter \<mapsto> 0) else cc);
          pc1 = (if cc letter = None then pc(letter \<mapsto> 0) else pc)
      in if feedback = CHR ''g'' then
           (case dict_get cc1 letter of
              Inl e \<Rightarrow> Inl e
            | Inr c \<Rightarrow> count_feedback (cc1(letter \<mapsto> c + 1)) pc1 rest)
         else if feedback = CHR ''y'' then
           (case dict_get pc1 letter of
              Inl e \<Rightarrow> Inl e
            | Inr c \<Rightarrow> count_feedback cc1 (pc1(letter \<mapsto> c + 1)) rest)
         else count_feedback cc1 pc1 rest)"

text \<open>
  \<^verbatim>\<open>word_letter_counts = {letter: word.count(letter) for letter, _ in guess_feedback}\<close>
\<close>

definition word_letter_counts :: "string \<Rightarrow> guess_feedback \<Rightarrow> (char \<rightharpoonup> nat)" where
  "word_letter_counts word fb =
     fold (\<lambda>(letter, _) d. d(letter \<mapsto> count_list word letter)) fb Map.empty"

text \<open>
  The body of \<^verbatim>\<open>is_word_possible\<close>: the loop over \<^verbatim>\<open>enumerate(guess_feedback)\<close>, from
  index \<open>i\<close> on. The tests of each branch are evaluated left to right and stop at the
  first that decides (\<^verbatim>\<open>or\<close>, \<^verbatim>\<open>and\<close>), so \<^verbatim>\<open>word[i]\<close> is read, and can raise, only
  where the source reads it. A symbol other than \<^verbatim>\<open>'g'\<close>, \<^verbatim>\<open>'y'\<close>, \<^verbatim>\<open>'b'\<close> matches no
  branch and the loop goes on.
\<close>

fun check_feedback ::
  "string \<Rightarrow> (char \<rightharpoonup> nat) \<Rightarrow> (char \<rightharpoonup> nat) \<Rightarrow> (char \<rightharpoonup> nat) \<Rightarrow> nat \<Rightarrow> guess_feedback \<Rightarrow> error + bool"
where
  "check_feedback word wlc cc pc i [] = Inr True"
| "check_feedback word wlc cc pc i ((letter, feedback) # rest) =
     (if feedback = CHR ''g'' then
        ebind (str_index word i) (\<lambda>c.
          if c \<noteq> letter then Inr False
          else ebind (dict_get wlc letter) (\<lambda>n.
               ebind (dict_get cc letter) (\<lambda>k.
                 if n < k then Inr False
                 else check_feedback word wlc cc pc (Suc i) rest)))
      else if feedback = CHR ''y'' then
        (if letter \<notin> set word then Inr False
         else ebind (str_index word i) (\<lambda>c.
           if c = letter then Inr False
           else ebind (dict_get wlc letter) (\<lambda>n.
                ebind (dict_get cc letter) (\<lambda>k.
                  if n \<le> k then Inr False
                  else check_feedback word wlc cc pc (Suc i) rest))))
      else if feedback = CHR ''b'' then
        (if letter \<in> set word then
           ebind (dict_get wlc letter) (\<lambda>n.
           ebind (dict_get cc letter) (\<lambda>k.
           ebind (dict_get pc letter) (\<lambda>p.
             if n > k + p then Inr False
             else check_feedback word wlc cc pc (Suc i) rest)))
         else check_feedback word wlc cc pc (Suc i) rest)
      else check_feedback word wlc cc pc (Suc i) rest)"

definition is_word_possible ::
  "guess_feedback \<Rightarrow> (char \<rightharpoonup> nat) \<Rightarrow> (char \<rightharpoonup> nat) \<Rightarrow> string \<Rightarrow> error + bool" where
  "is_word_possible fb cc pc word =
     check_feedback word (word_letter_counts word fb) cc pc 0 fb"

text \<open>
  The comprehension \<^verbatim>\<open>[word for word in word_list if p(word)]\<close> for a test that can
  raise: the words are tested in order and the first exception ends the comprehension.
\<close>

fun filter_words :: "(string \<Rightarrow> error + bool) \<Rightarrow> string list \<Rightarrow> error + string list" where
  "filter_words p [] = Inr []"
| "filter_words p (w # ws) =
     (case p w of
        Inl e \<Rightarrow> Inl e
      | Inr b \<Rightarrow>
          (case filter_words p ws of
             Inl e \<Rightarrow> Inl e
           | Inr r \<Rightarrow> Inr (if b then w # r else r)))"

definition filter_possible_words :: "string list \<Rightarrow> guess_feedback \<Rightarrow> error + string list" where
  "filter_possible_words word_list fb =
     (if fb = [] then Inr word_list
      else (case count_feedback Map.empty Map.empty fb of
              Inl e \<Rightarrow> Inl e
            | Inr (cc, pc) \<Rightarrow> filter_words (is_word_possible fb cc pc) word_list))"

section \<open>Letter frequencies, normalised scores, guess scores\<close>

text \<open>
  A Python dictionary with letters as keys is an association list in insertion order,
  each key once. \<^verbatim>\<open>Counter(all_letters)\<close> enters a letter at its first occurrence and
  increments its count at each later one.
\<close>

fun counter_add :: "(char \<times> nat) list \<Rightarrow> char \<Rightarrow> (char \<times> nat) list" where
  "counter_add [] c = [(c, 1)]"
| "counter_add ((k, n) # d) c =
     (if k = c then (k, n + 1) # d else (k, n) # counter_add d c)"

definition Counter :: "string \<Rightarrow> (char \<times> nat) list" where
  "Counter s = foldl counter_add [] s"

text \<open>
  The test \<^verbatim>\<open>len(word) == length and (prefix is None or word.startswith(prefix))\<close>,
  shared by the frequency analyser, the recommender and the request handler.
\<close>

definition length_prefix_match :: "int \<Rightarrow> string option \<Rightarrow> string \<Rightarrow> bool" where
  "length_prefix_match len pfx word =
     (int (length word) = len \<and> (case pfx of None \<Rightarrow> True | Some p \<Rightarrow> prefix p word))"

text \<open>
  \<^verbatim>\<open>sorted(items, key=..., reverse=True)\<close> and \<^verbatim>\<open>list.sort(key=..., reverse=True)\<close>:
  descending by key, and stable (items with equal keys keep their order). That is the
  stable ascending sort by the negated key.
\<close>

definition sort_desc :: "('a \<Rightarrow> 'k::linordered_idom) \<Rightarrow> 'a list \<Rightarrow> 'a list" where
  "sort_desc key xs = sort_key (\<lambda>x. - key x) xs"

definition calculate_letter_frequency ::
  "string list \<Rightarrow> int \<Rightarrow> string option \<Rightarrow> (char \<times> rat) list" where
  "calculate_letter_frequency word_list len pfx =
     (let filtered_words = filter (length_prefix_match len pfx) word_list in
      if filtered_words = [] then []
      else
        let stripped =
              (case pfx of
                 None \<Rightarrow> filtered_words
               | Some p \<Rightarrow> if p = [] then filtered_words
                           else map (drop (length p)) filtered_words);
            all_letters = concat stripped;
            frequency = Counter all_letters;
            total_letters = sum_list (map snd frequency)
        in if total_letters = 0 then []
           else
             let percentage_frequency =
                   map (\<lambda>(letter, count). (letter, (of_nat count / of_nat total_letters) * 100))
                       frequency
             in sort_desc snd percentage_frequency)"

text \<open>
  \<^verbatim>\<open>normalize_letter_frequencies\<close>. The table is not empty where \<^verbatim>\<open>max\<close> and \<^verbatim>\<open>min\<close>
  are taken, so they run over a first value and the rest.
\<close>

definition normalize_letter_frequencies :: "(char \<times> rat) list \<Rightarrow> (char \<times> rat) list" where
  "normalize_letter_frequencies frequencies =
     (case frequencies of
        [] \<Rightarrow> []
      | first # others \<Rightarrow>
          let max_freq = fold max (map snd others) (snd first);
              min_freq = fold min (map snd others) (snd first)
          in if max_freq = min_freq then map (\<lambda>(letter, _). (letter, 5)) frequencies
             else map (\<lambda>(letter, v). (letter, ((v - min_freq) / (max_freq - min_freq)) * 10))
                      frequencies)"

text \<open>\<^verbatim>\<open>letter_scores.get(letter, 0)\<close>\<close>

definition score_get :: "(char \<times> rat) list \<Rightarrow> char \<Rightarrow> rat" where
  "score_get letter_scores letter =
     (case map_of letter_scores letter of None \<Rightarrow> 0 | Some v \<Rightarrow> v)"

text \<open>
  \<^verbatim>\<open>calculate_guess_score\<close>: over the letters of the word, or over \<^verbatim>\<open>set(word)\<close>, each
  distinct letter once (the order of a sum of rationals does not matter).
\<close>

definition calculate_guess_score :: "string \<Rightarrow> (char \<times> rat) list \<Rightarrow> int \<Rightarrow> rat" where
  "calculate_guess_score word letter_scores guess_count =
     (let count_duplicates = (guess_count > 2) in
      if count_duplicates then sum_list (map (score_get letter_scores) word)
      else sum_list (map (score_get letter_scores) (remdups word)))"

section \<open>The recommender: \<^verbatim>\<open>recommend_guesses\<close>\<close>

text \<open>
  The slice \<^verbatim>\<open>xs[:n]\<close>: the first \<open>n\<close> items for \<open>n \<ge> 0\<close>, and all but the last
  \<open>-n\<close> items for a negative \<open>n\<close>.
\<close>

definition slice_to :: "int \<Rightarrow> 'a list \<Rightarrow> 'a list" where
  "slice_to n xs =
     (if 0 \<le> n then take (nat n) xs else take (nat (int (length xs) + n)) xs)"

definition recommend_guesses ::
  "string list \<Rightarrow> int \<Rightarrow> string option \<Rightarrow> int \<Rightarrow> int \<Rightarrow> string list option \<Rightarrow> (string \<times> rat) list"
where
  "recommend_guesses word_list len pfx n guess_count score_base_word_list =
     (let filtered_words = filter (length_prefix_match len pfx) word_list in
      if filtered_words = [] then []
      else
        let base = (case score_base_word_list of Some b \<Rightarrow> b | None \<Rightarrow> word_list);
            frequencies = calculate_letter_frequency base len pfx;
            letter_scores = normalize_letter_frequencies frequencies;
            scored_words =
              map (\<lambda>word. (word, calculate_guess_score word letter_scores guess_count))
                  filtered_words
        in slice_to n (sort_desc snd scored_words))"

section \<open>Variable positions and filler words\<close>

text \<open>
  \<^verbatim>\<open>find_variable_letter_positions\<close>. The dictionary \<^verbatim>\<open>{i: set() for i in range(word_length)}\<close>
  is the list of its values, the key being the index; adding a letter at an index that
  is not a key (a word longer than the first one) raises KeyError.
\<close>

fun add_letters :: "char set list \<Rightarrow> nat \<Rightarrow> string \<Rightarrow> error + char set list" where
  "add_letters vp i [] = Inr vp"
| "add_letters vp i (letter # rest) =
     (if i < length vp then add_letters (vp[i := insert letter (vp ! i)]) (Suc i) rest
      else Inl KeyError)"

fun add_words :: "char set list \<Rightarrow> string list \<Rightarrow> error + char set list" where
  "add_words vp [] = Inr vp"
| "add_words vp (word # rest) =
     (case add_letters vp 0 word of
        Inl e \<Rightarrow> Inl e
      | Inr vp' \<Rightarrow> add_words vp' rest)"

definition find_variable_letter_positions ::
  "string list \<Rightarrow> error + (nat \<times> char set) list" where
  "find_variable_letter_positions word_list =
     (case word_list of
        [] \<Rightarrow> Inr []
      | first # _ \<Rightarrow>
          (case add_words (replicate (length first) {}) word_list of
             Inl e \<Rightarrow> Inl e
           | Inr vp \<Rightarrow>
               Inr (filter (\<lambda>(pos, letters). card letters > 1) (zip [0..<length vp] vp))))"

text \<open>
  The filler finder, the block of \<^verbatim>\<open>calculate_next_move\<close> under
  \<^verbatim>\<open>if variable_letters and len(possible_words) > 10\<close>: candidates from the full
  dictionary, scored by the number of variable letters they contain, the best nine.
\<close>

definition filler_score :: "char set \<Rightarrow> string \<Rightarrow> int" where
  "filler_score variable_letters word =
     int (card {letter \<in> variable_letters. letter \<in> set word})"

definition find_filler_words :: "string list \<Rightarrow> int \<Rightarrow> char set \<Rightarrow> string list" where
  "find_filler_words dictionary word_length variable_letters =
     (let filler_candidates =
            filter (\<lambda>word. int (length word) = word_length \<and>
                           (\<exists>letter \<in> variable_letters. letter \<in> set word))
                   dictionary;
          scored_fillers = map (\<lambda>word. (word, filler_score variable_letters word)) filler_candidates
      in map fst (take 9 (sort_desc snd scored_fillers)))"

section \<open>The request handler: \<^verbatim>\<open>calculate_next_move\<close>\<close>

text \<open>
  The handler is modelled from the loaded dictionary on: the word list, the
  configuration (\<^verbatim>\<open>wordLength\<close>, \<^verbatim>\<open>prefix\<close>) and the history. A history entry is a
  JSON object, so either key can be missing. \<^verbatim>\<open>str.lower\<close> acts on the ASCII letters.
\<close>

record history_entry =
  entry_guess :: "string option"
  entry_feedback :: "string option"

definition lower_char :: "char \<Rightarrow> char" where
  "lower_char c =
     (case map_of (zip ''ABCDEFGHIJKLMNOPQRSTUVWXYZ'' ''abcdefghijklmnopqrstuvwxyz'') c of
        None \<Rightarrow> c
      | Some l \<Rightarrow> l)"

definition lower :: "string \<Rightarrow> string" where
  "lower s = map lower_char s"

text \<open>The loop \<^verbatim>\<open>for entry in history\<close>, narrowing \<^verbatim>\<open>possible_words\<close>.\<close>

fun apply_history :: "int \<Rightarrow> string list \<Rightarrow> history_entry list \<Rightarrow> error + string list" where
  "apply_history word_length possible_words [] = Inr possible_words"
| "apply_history word_length possible_words (entry # rest) =
     (case (entry_guess entry, entry_feedback entry) of
        (Some g, Some f) \<Rightarrow>
          (let guess = lower g; feedback = lower f in
           if int (length guess) \<noteq> word_length \<or> int (length feedback) \<noteq> word_length
           then Inl (ValueError ''Guess and feedback length mismatch'')
           else if \<not> list_all (\<lambda>c. c \<in> set ''gyb'') feedback
           then Inl (ValueError ''Invalid feedback characters'')
           else (case filter_possible_words possible_words (zip guess feedback) of
                   Inl e \<Rightarrow> Inl e
                 | Inr narrowed \<Rightarrow> apply_history word_length narrowed rest))
      | _ \<Rightarrow> Inl (ValueError ''Invalid history entry format''))"

text \<open>
  The response. The scores of \<open>recommendations\<close> are carried as computed (the source
  rounds them to two decimals for display); \<open>variablePositions\<close> keeps each position's
  letters as a set, the source listing them in no particular order.
\<close>

record response =
  recommendations :: "(string \<times> rat) list"
  remainingWords :: "string list"
  remainingCount :: nat
  variablePositions :: "(nat \<times> char set) list"
  fillerSuggestions :: "string list"
  guessCount :: nat

definition next_move ::
  "string list \<Rightarrow> int \<Rightarrow> string option \<Rightarrow> history_entry list \<Rightarrow> error + response" where
  "next_move dictionary word_length pfx history =
     (if word_length < 1 then Inl (ValueError ''Invalid wordLength'')
      else
        let possible_words0 = filter (length_prefix_match word_length pfx) dictionary;
            guess_count = length history + 1
        in ebind (apply_history word_length possible_words0 history) (\<lambda>possible_words.
             let recs = recommend_guesses possible_words word_length pfx 9 (int guess_count)
                          (Some dictionary)
             in ebind (find_variable_letter_positions possible_words) (\<lambda>variable_positions.
                  let variable_letters = \<Union> (set (map snd variable_positions));
                      filler_suggestions =
                        (if variable_letters \<noteq> {} \<and> length possible_words > 10
                         then find_filler_words dictionary word_length variable_letters
                         else [])
                  in Inr \<lparr> recommendations = recs,
                           remainingWords = take 100 possible_words,
                           remainingCount = length possible_words,
                           variablePositions = variable_positions,
                           fillerSuggestions = filler_suggestions,
                           guessCount = guess_count \<rparr>)))"

text \<open>
  The \<^verbatim>\<open>try\<close> around the body: a ValueError is answered as \<^verbatim>\<open>INVALID_ARGUMENT\<close> with
  its message, any other exception as \<^verbatim>\<open>INTERNAL_ERROR\<close>.
\<close>

datatype api_error = INVALID_ARGUMENT string | INTERNAL_ERROR

definition calculate_next_move ::
  "string list \<Rightarrow> int \<Rightarrow> string option \<Rightarrow> history_entry list \<Rightarrow> api_error + response" where
  "calculate_next_move dictionary word_length pfx history =
     (case next_move dictionary word_length pfx history of
        Inl (ValueError msg) \<Rightarrow> Inl (INVALID_ARGUMENT msg)
      | Inl _ \<Rightarrow> Inl INTERNAL_ERROR
      | Inr r \<Rightarrow> Inr r)"

section \<open>Notions of the specification\<close>

text \<open>
  The definitions of this section follow the words of the specification, not the code;
  the theorems below compare them with the functions above.
\<close>

subsection \<open>The retention rule of the candidate filter\<close>

text \<open>
  \<open>correctCount\<close> and \<open>presentCount\<close>: the number of Correct (\<^verbatim>\<open>'g'\<close>) and of Present
  (\<^verbatim>\<open>'y'\<close>) symbols for a letter across the whole feedback; \<open>occurrences\<close>: how often a
  letter occurs in a word.
\<close>

definition correctCount :: "guess_feedback \<Rightarrow> char \<Rightarrow> nat" where
  "correctCount fb L = length (filter (\<lambda>(l, s). l = L \<and> s = CHR ''g'') fb)"

definition presentCount :: "guess_feedback \<Rightarrow> char \<Rightarrow> nat" where
  "presentCount fb L = length (filter (\<lambda>(l, s). l = L \<and> s = CHR ''y'') fb)"

definition occurrences :: "char \<Rightarrow> string \<Rightarrow> nat" where
  "occurrences L word = count_list word L"

text \<open>The three rules for position \<open>i\<close>, with letter \<open>L\<close> and symbol \<open>s\<close>.\<close>

definition position_ok :: "guess_feedback \<Rightarrow> string \<Rightarrow> nat \<Rightarrow> bool" where
  "position_ok fb word i =
     (let L = fst (fb ! i); s = snd (fb ! i) in
        (s = CHR ''g'' \<longrightarrow> word ! i = L \<and> occurrences L word \<ge> correctCount fb L) \<and>
        (s = CHR ''y'' \<longrightarrow> L \<in> set word \<and> word ! i \<noteq> L \<and> occurrences L word > correctCount fb L) \<and>
        (s = CHR ''b'' \<longrightarrow> (L \<in> set word \<longrightarrow> occurrences L word \<le> correctCount fb L + presentCount fb L)))"

definition retained_spec :: "guess_feedback \<Rightarrow> string \<Rightarrow> bool" where
  "retained_spec fb word = (\<forall>i \<in> set [0..<length fb]. position_ok fb word i)"

subsection \<open>Pools, bases and requests\<close>

text \<open>The letters the frequency analyser counts: the filtered basis, each word without the prefix.\<close>

definition basis_letters :: "string list \<Rightarrow> int \<Rightarrow> string option \<Rightarrow> string" where
  "basis_letters word_list len pfx =
     concat (map (drop (case pfx of None \<Rightarrow> 0 | Some p \<Rightarrow> length p))
                 (filter (length_prefix_match len pfx) word_list))"


text \<open>The words the filler finder chooses from: of the target length, with a variable letter.\<close>

definition filler_candidates :: "string list \<Rightarrow> int \<Rightarrow> char set \<Rightarrow> string list" where
  "filler_candidates dictionary word_length variable_letters =
     filter (\<lambda>word. int (length word) = word_length \<and>
                     (\<exists>letter \<in> variable_letters. letter \<in> set word)) dictionary"

text \<open>The letters the candidates have at position \<open>i\<close>.\<close>

definition letters_at :: "string list \<Rightarrow> nat \<Rightarrow> char set" where
  "letters_at word_list i = (\<lambda>w. w ! i) ` set word_list"

text \<open>
  A well-formed history entry: both keys present, guess and feedback of the word length,
  every feedback character one of \<^verbatim>\<open>g\<close>, \<^verbatim>\<open>y\<close>, \<^verbatim>\<open>b\<close> in either case.
\<close>

definition entry_wellformed :: "int \<Rightarrow> history_entry \<Rightarrow> bool" where
  "entry_wellformed word_length entry =
     (case (entry_guess entry, entry_feedback entry) of
        (Some g, Some f) \<Rightarrow>
          int (length g) = word_length \<and> int (length f) = word_length \<and>
          list_all (\<lambda>c. lower_char c \<in> set ''gyb'') f
      | _ \<Rightarrow> False)"



subsection \<open>Auxiliary notions of the proofs\<close>

definition counts_of :: "(char \<rightharpoonup> nat) \<Rightarrow> char \<Rightarrow> nat" where
  "counts_of d l = (case d l of None \<Rightarrow> 0 | Some n \<Rightarrow> n)"

definition final_counts ::
  "(char \<rightharpoonup> nat) \<Rightarrow> (char \<Rightarrow> nat) \<Rightarrow> char set \<Rightarrow> (char \<rightharpoonup> nat)" where
  "final_counts d cnt keys =
     (\<lambda>l. if l \<in> dom d \<union> keys then Some (counts_of d l + cnt l) else None)"

section \<open>The candidate filter meets its retention rule\<close>

lemma word_letter_counts_fold:
  "fold (\<lambda>(letter, _) d. d(letter \<mapsto> count_list word letter)) fb d0 l =
     (if l \<in> fst ` set fb then Some (count_list word l) else d0 l)"
  by (induction fb arbitrary: d0) (auto split: prod.splits)

lemma word_letter_counts_eq:
  "word_letter_counts word fb l = (if l \<in> fst ` set fb then Some (count_list word l) else None)"
  by (simp add: word_letter_counts_def word_letter_counts_fold)

lemma counts_of_upd [simp]: "counts_of (d(k \<mapsto> v)) l = (if l = k then v else counts_of d l)"
  by (simp add: counts_of_def)

lemma counts_of_empty [simp]: "counts_of Map.empty l = 0"
  by (simp add: counts_of_def)

lemma correctCount_Cons:
  "correctCount ((letter, s) # rest) l =
     (if l = letter \<and> s = CHR ''g'' then 1 else 0) + correctCount rest l"
  by (simp add: correctCount_def)

lemma presentCount_Cons:
  "presentCount ((letter, s) # rest) l =
     (if l = letter \<and> s = CHR ''y'' then 1 else 0) + presentCount rest l"
  by (simp add: presentCount_def)

lemma count_feedback_step:
  assumes "dom cc = dom pc"
  shows "count_feedback cc pc ((letter, s) # rest) =
     count_feedback (cc(letter \<mapsto> counts_of cc letter + (if s = CHR ''g'' then 1 else 0)))
                    (pc(letter \<mapsto> counts_of pc letter + (if s = CHR ''y'' then 1 else 0))) rest"
proof (cases "cc letter")
  case None
  then have "pc letter = None" using assms by (metis domIff)
  with None show ?thesis
    by (simp add: dict_get_def counts_of_def)
next
  case (Some v)
  then obtain u where u: "pc letter = Some u" using assms by (metis domIff not_Some_eq)
  have "cc(letter \<mapsto> v) = cc" "pc(letter \<mapsto> u) = pc"
    using Some u by (simp_all add: fun_upd_idem)
  with Some u show ?thesis
    by (simp add: dict_get_def counts_of_def)
qed

lemma count_feedback_result:
  "dom cc = dom pc \<Longrightarrow>
   count_feedback cc pc fb =
     Inr (final_counts cc (correctCount fb) (fst ` set fb),
          final_counts pc (presentCount fb) (fst ` set fb))"
proof (induction fb arbitrary: cc pc)
  case Nil
  then show ?case
    by (auto simp: final_counts_def correctCount_def presentCount_def counts_of_def fun_eq_iff
             split: option.splits)
next
  case (Cons a fb)
  obtain letter s where a: "a = (letter, s)" by (cases a)
  let ?cc = "cc(letter \<mapsto> counts_of cc letter + (if s = CHR ''g'' then 1 else 0))"
  let ?pc = "pc(letter \<mapsto> counts_of pc letter + (if s = CHR ''y'' then 1 else 0))"
  have d: "dom ?cc = dom ?pc" using Cons.prems by simp
  have e1: "final_counts ?cc (correctCount fb) (fst ` set fb) =
            final_counts cc (correctCount (a # fb)) (fst ` set (a # fb))"
    by (rule ext) (simp add: final_counts_def a correctCount_Cons)
  have e2: "final_counts ?pc (presentCount fb) (fst ` set fb) =
            final_counts pc (presentCount (a # fb)) (fst ` set (a # fb))"
    using Cons.prems by (intro ext) (simp add: final_counts_def a presentCount_Cons)
  show ?case
    unfolding a count_feedback_step[OF Cons.prems] Cons.IH[OF d] e1[unfolded a] e2[unfolded a] ..
qed

lemma count_feedback_start:
  "count_feedback Map.empty Map.empty fb =
     Inr (\<lambda>l. if l \<in> fst ` set fb then Some (correctCount fb l) else None,
          \<lambda>l. if l \<in> fst ` set fb then Some (presentCount fb l) else None)"
  by (simp add: count_feedback_result final_counts_def cong: if_cong)

lemma check_feedback_spec:
  assumes keys: "\<And>l. l \<in> fst ` set rest \<Longrightarrow>
            wlc l = Some (count_list word l) \<and> cc l = Some (cC l) \<and> pc l = Some (pC l)"
      and len: "i + length rest \<le> length word"
  shows "check_feedback word wlc cc pc i rest =
     Inr (\<forall>j < length rest.
            (snd (rest ! j) = CHR ''g'' \<longrightarrow>
               word ! (i + j) = fst (rest ! j) \<and> count_list word (fst (rest ! j)) \<ge> cC (fst (rest ! j))) \<and>
            (snd (rest ! j) = CHR ''y'' \<longrightarrow>
               fst (rest ! j) \<in> set word \<and> word ! (i + j) \<noteq> fst (rest ! j) \<and>
               count_list word (fst (rest ! j)) > cC (fst (rest ! j))) \<and>
            (snd (rest ! j) = CHR ''b'' \<longrightarrow>
               (fst (rest ! j) \<in> set word \<longrightarrow>
                count_list word (fst (rest ! j)) \<le> cC (fst (rest ! j)) + pC (fst (rest ! j)))))"
  using assms
proof (induction rest arbitrary: i)
  case Nil
  then show ?case by simp
next
  case (Cons a rest)
  obtain letter s where a: "a = (letter, s)" by (cases a)
  have k: "wlc letter = Some (count_list word letter)" "cc letter = Some (cC letter)"
          "pc letter = Some (pC letter)"
    using Cons.prems(1)[of letter] by (simp_all add: a)
  have i: "i < length word" using Cons.prems(2) by simp
  have ih: "check_feedback word wlc cc pc (Suc i) rest = Inr (\<forall>j < length rest.
            (snd (rest ! j) = CHR ''g'' \<longrightarrow>
               word ! (Suc i + j) = fst (rest ! j) \<and> count_list word (fst (rest ! j)) \<ge> cC (fst (rest ! j))) \<and>
            (snd (rest ! j) = CHR ''y'' \<longrightarrow>
               fst (rest ! j) \<in> set word \<and> word ! (Suc i + j) \<noteq> fst (rest ! j) \<and>
               count_list word (fst (rest ! j)) > cC (fst (rest ! j))) \<and>
            (snd (rest ! j) = CHR ''b'' \<longrightarrow>
               (fst (rest ! j) \<in> set word \<longrightarrow>
                count_list word (fst (rest ! j)) \<le> cC (fst (rest ! j)) + pC (fst (rest ! j)))))"
    using Cons.prems by (intro Cons.IH) auto
  show ?case
    unfolding a
    by (simp add: ih k i ebind_def dict_get_def str_index_def All_less_Suc2 not_le not_less)
qed

lemma filter_words_total:
  "\<forall>w \<in> set ws. p w = Inr (q w) \<Longrightarrow> filter_words p ws = Inr (filter q ws)"
  by (induction ws) simp_all

lemma filter_words_subseq:
  "filter_words p ws = Inr r \<Longrightarrow> subseq r ws"
proof (induction ws arbitrary: r)
  case Nil
  then show ?case by simp
next
  case (Cons w ws)
  then show ?case
    by (auto split: sum.splits if_splits)
qed

lemma is_word_possible_spec:
  assumes "length fb \<le> length word"
  shows "is_word_possible fb
           (\<lambda>l. if l \<in> fst ` set fb then Some (correctCount fb l) else None)
           (\<lambda>l. if l \<in> fst ` set fb then Some (presentCount fb l) else None) word =
         Inr (retained_spec fb word)"
proof -
  have "check_feedback word (word_letter_counts word fb)
           (\<lambda>l. if l \<in> fst ` set fb then Some (correctCount fb l) else None)
           (\<lambda>l. if l \<in> fst ` set fb then Some (presentCount fb l) else None) 0 fb =
     Inr (\<forall>j < length fb.
            (snd (fb ! j) = CHR ''g'' \<longrightarrow>
               word ! (0 + j) = fst (fb ! j) \<and> count_list word (fst (fb ! j)) \<ge> correctCount fb (fst (fb ! j))) \<and>
            (snd (fb ! j) = CHR ''y'' \<longrightarrow>
               fst (fb ! j) \<in> set word \<and> word ! (0 + j) \<noteq> fst (fb ! j) \<and>
               count_list word (fst (fb ! j)) > correctCount fb (fst (fb ! j))) \<and>
            (snd (fb ! j) = CHR ''b'' \<longrightarrow>
               (fst (fb ! j) \<in> set word \<longrightarrow>
                count_list word (fst (fb ! j)) \<le> correctCount fb (fst (fb ! j)) + presentCount fb (fst (fb ! j)))))"
    using assms by (intro check_feedback_spec) (simp_all add: word_letter_counts_eq)
  then show ?thesis
    by (simp add: is_word_possible_def retained_spec_def position_ok_def occurrences_def Let_def Ball_def)
qed

lemma filter_possible_words_general:
  assumes "\<forall>w \<in> set word_list. length fb \<le> length w"
  shows "filter_possible_words word_list fb = Inr (filter (retained_spec fb) word_list)"
proof (cases "fb = []")
  case True
  then show ?thesis
    by (simp add: filter_possible_words_def retained_spec_def)
next
  case False
  then show ?thesis
    using assms
    by (simp add: filter_possible_words_def count_feedback_start filter_words_total
                  is_word_possible_spec)
qed

lemmas filter_eval =
  filter_possible_words_def is_word_possible_def word_letter_counts_def
  ebind_def dict_get_def str_index_def Let_def


text \<open>
  Claim C1. For every word list and every feedback sequence of letters with symbols among
  Correct (\<^verbatim>\<open>'g'\<close>), Present (\<^verbatim>\<open>'y'\<close>) and Absent (\<^verbatim>\<open>'b'\<close>) whose length is the
  length of the words, the filter raises nothing and retains a word exactly when every
  feedback position satisfies the rule of its symbol: Correct, the word has the letter
  there and at least \<open>correctCount\<close> occurrences of it; Present, the word has the letter,
  not there, and more than \<open>correctCount\<close> occurrences; Absent, a word with the letter has
  at most \<open>correctCount + presentCount\<close> occurrences.
\<close>

theorem filter_possible_words_spec:
  assumes "\<forall>w \<in> set word_list. length w = length fb"
      and "\<forall>p \<in> set fb. snd p = CHR ''g'' \<or> snd p = CHR ''y'' \<or> snd p = CHR ''b''"
  shows "filter_possible_words word_list fb = Inr (filter (retained_spec fb) word_list)"
  using assms(1) by (intro filter_possible_words_general) simp

text \<open>
  The theorem at a feedback with a threefold letter: the guess \<^verbatim>\<open>assss\<close> against the
  hidden word \<^verbatim>\<open>sassy\<close>. The word \<^verbatim>\<open>gassy\<close> has only the two pinned occurrences of
  \<^verbatim>\<open>s\<close> and is dropped by the Present rule.
\<close>

theorem filter_possible_words_spec_witness:
  "filter_possible_words [''sassy'', ''assss'', ''gassy'', ''sissy''] (zip ''assss'' ''yyggb'') =
     Inr [''sassy''] \<and>
   filter (retained_spec (zip ''assss'' ''yyggb'')) [''sassy'', ''assss'', ''gassy'', ''sissy''] =
     [''sassy'']"
proof -
  have e: "filter_possible_words [''sassy'', ''assss'', ''gassy'', ''sissy'']
             (zip ''assss'' ''yyggb'') = Inr [''sassy'']"
    by (simp add: filter_eval)
  have "filter_possible_words [''sassy'', ''assss'', ''gassy'', ''sissy''] (zip ''assss'' ''yyggb'') =
        Inr (filter (retained_spec (zip ''assss'' ''yyggb''))
               [''sassy'', ''assss'', ''gassy'', ''sissy''])"
    by (rule filter_possible_words_spec) simp_all
  with e show ?thesis by simp
qed

text \<open>
  Claim C2. For the pool \<^verbatim>\<open>crane, slate, place, grape\<close> and the feedback of the guess
  \<^verbatim>\<open>crane\<close> paired with \<^verbatim>\<open>bbgbg\<close>, the filter returns the single word \<^verbatim>\<open>slate\<close>:
  \<^verbatim>\<open>place\<close> contains the letter \<^verbatim>\<open>c\<close>, which the feedback marks Absent.
\<close>

theorem crane_scenario:
  "zip ''crane'' ''bbgbg'' =
     [(CHR ''c'', CHR ''b''), (CHR ''r'', CHR ''b''), (CHR ''a'', CHR ''g''),
      (CHR ''n'', CHR ''b''), (CHR ''e'', CHR ''g'')] \<and>
   filter_possible_words [''crane'', ''slate'', ''place'', ''grape'']
     [(CHR ''c'', CHR ''b''), (CHR ''r'', CHR ''b''), (CHR ''a'', CHR ''g''),
      (CHR ''n'', CHR ''b''), (CHR ''e'', CHR ''g'')] = Inr [''slate'']"
  by (simp add: filter_eval)

text \<open>The result is not the pair of words \<^verbatim>\<open>slate, place\<close>.\<close>

theorem crane_scenario_counterexample:
  "filter_possible_words [''crane'', ''slate'', ''place'', ''grape'']
     [(CHR ''c'', CHR ''b''), (CHR ''r'', CHR ''b''), (CHR ''a'', CHR ''g''),
      (CHR ''n'', CHR ''b''), (CHR ''e'', CHR ''g'')] \<noteq> Inr [''slate'', ''place'']"
  by (simp add: filter_eval)


text \<open>
  Claim C4. Whatever the word list and the feedback, a list the filter returns is a
  sublist of the word list, in the same order, so a subset of it and no longer; and the
  filter does return a list whenever no word is shorter than the feedback.
\<close>

theorem filter_possible_words_sublist:
  "(\<forall>kept. filter_possible_words word_list fb = Inr kept \<longrightarrow>
       subseq kept word_list \<and> set kept \<subseteq> set word_list \<and> length kept \<le> length word_list) \<and>
   ((\<forall>w \<in> set word_list. length fb \<le> length w) \<longrightarrow>
       (\<exists>kept. filter_possible_words word_list fb = Inr kept))"
proof -
  have s: "subseq kept word_list" if r: "filter_possible_words word_list fb = Inr kept" for kept
  proof (cases "fb = []")
    case True
    with r show ?thesis by (simp add: filter_possible_words_def)
  next
    case False
    with r have "filter_words
        (is_word_possible fb
           (\<lambda>l. if l \<in> fst ` set fb then Some (correctCount fb l) else None)
           (\<lambda>l. if l \<in> fst ` set fb then Some (presentCount fb l) else None)) word_list = Inr kept"
      by (simp add: filter_possible_words_def count_feedback_start)
    then show ?thesis by (rule filter_words_subseq)
  qed
  have a: "\<forall>kept. filter_possible_words word_list fb = Inr kept \<longrightarrow>
       subseq kept word_list \<and> set kept \<subseteq> set word_list \<and> length kept \<le> length word_list"
  proof (intro allI impI)
    fix kept assume "filter_possible_words word_list fb = Inr kept"
    then have k: "subseq kept word_list" by (rule s)
    have "set kept \<subseteq> set word_list"
      using list_emb_set[OF k] by auto
    moreover have "length kept \<le> length word_list"
      using k by (rule list_emb_length)
    ultimately show "subseq kept word_list \<and> set kept \<subseteq> set word_list \<and>
                     length kept \<le> length word_list"
      using k by simp
  qed
  have b: "(\<forall>w \<in> set word_list. length fb \<le> length w) \<longrightarrow>
       (\<exists>kept. filter_possible_words word_list fb = Inr kept)"
    by (simp add: filter_possible_words_general)
  from a b show ?thesis ..
qed

text \<open>The theorem at a pool of four words and the feedback of the guess \<^verbatim>\<open>mouse\<close>.\<close>

theorem filter_possible_words_sublist_witness:
  "filter_possible_words [''crane'', ''slate'', ''audio'', ''house''] (zip ''mouse'' ''bgggg'') =
     Inr [''house''] \<and>
   subseq [''house''] [''crane'', ''slate'', ''audio'', ''house''] \<and>
   length [''house''] \<le> length [''crane'', ''slate'', ''audio'', ''house'']"
proof -
  have e: "filter_possible_words [''crane'', ''slate'', ''audio'', ''house'']
             (zip ''mouse'' ''bgggg'') = Inr [''house'']"
    by (simp add: filter_eval)
  with filter_possible_words_sublist[of "[''crane'', ''slate'', ''audio'', ''house'']"
         "zip ''mouse'' ''bgggg''"]
  have "subseq [''house''] [''crane'', ''slate'', ''audio'', ''house'']" by blast
  with e show ?thesis by simp
qed

section \<open>Frequencies, normalisation and guess scores\<close>

lemma counter_add_sum: "sum_list (map snd (counter_add d c)) = sum_list (map snd d) + 1"
  by (induction d c rule: counter_add.induct) simp_all

lemma counter_fold_sum:
  "sum_list (map snd (foldl counter_add d s)) = sum_list (map snd d) + length s"
  by (induction s arbitrary: d) (simp_all add: counter_add_sum)

lemma Counter_sum: "sum_list (map snd (Counter s)) = length s"
  by (simp add: Counter_def counter_fold_sum)

lemma counter_add_keys: "fst ` set (counter_add d c) = insert c (fst ` set d)"
  by (induction d c rule: counter_add.induct) auto

lemma counter_add_distinct:
  "distinct (map fst d) \<Longrightarrow> distinct (map fst (counter_add d c))"
proof (induction d c rule: counter_add.induct)
  case (1 c)
  then show ?case by simp
next
  case (2 k n d c)
  then show ?case
    using counter_add_keys[of d c] by (auto simp: image_iff)
qed

lemma counter_fold_distinct:
  "distinct (map fst d) \<Longrightarrow> distinct (map fst (foldl counter_add d s))"
  by (induction s arbitrary: d) (simp_all add: counter_add_distinct)

lemma Counter_distinct: "distinct (map fst (Counter s))"
  by (simp add: Counter_def counter_fold_distinct)

lemma Counter_keys: "fst ` set (Counter s) = set s"
proof -
  have "fst ` set (foldl counter_add d s) = fst ` set d \<union> set s" for d
    by (induction s arbitrary: d) (simp_all add: counter_add_keys)
  then show ?thesis by (simp add: Counter_def)
qed

lemma percentages_sum:
  "sum_list (map snd (map (\<lambda>(letter, count). (letter, (of_nat count / t) * 100)) fr)) =
     (of_nat (sum_list (map snd fr)) / t) * (100::rat)"
  by (induction fr) (auto simp: add_divide_distrib distrib_right)

lemma sum_list_insort_key:
  "sum_list (map f (insort_key k x xs)) = (f x :: rat) + sum_list (map f xs)"
  by (induction xs) simp_all

lemma sum_list_sort_desc: "sum_list (map f (sort_desc key xs)) = (sum_list (map f xs) :: rat)"
  unfolding sort_desc_def by (induction xs) (simp_all add: sum_list_insort_key)

lemma map_fst_percent:
  "map fst (map (\<lambda>(letter, count). (letter, g count)) fr) = map fst fr"
  by (induction fr) auto

lemma distinct_map_fst_sort_desc:
  "distinct (map fst (sort_desc key xs)) = distinct (map fst xs)"
proof -
  have "mset (map fst (sort_desc key xs)) = mset (map fst xs)"
    by (simp add: sort_desc_def)
  then show ?thesis by (rule mset_eq_imp_distinct_iff)
qed

lemma calculate_letter_frequency_eq:
  "calculate_letter_frequency word_list len pfx =
     (if basis_letters word_list len pfx = [] then []
      else sort_desc snd
             (map (\<lambda>(letter, count).
                     (letter, (of_nat count / of_nat (length (basis_letters word_list len pfx))) * 100))
                  (Counter (basis_letters word_list len pfx))))"
proof -
  let ?F = "filter (length_prefix_match len pfx) word_list"
  let ?L = "basis_letters word_list len pfx"
  have s: "(case pfx of None \<Rightarrow> ?F
            | Some p \<Rightarrow> if p = [] then ?F else map (drop (length p)) ?F) =
           map (drop (case pfx of None \<Rightarrow> 0 | Some p \<Rightarrow> length p)) ?F"
    by (simp split: option.splits)
  have cf: "calculate_letter_frequency word_list len pfx =
     (if ?F = [] then [] else if length ?L = 0 then []
      else sort_desc snd
             (map (\<lambda>(letter, count). (letter, (of_nat count / of_nat (length ?L)) * 100))
                  (Counter ?L)))"
    unfolding calculate_letter_frequency_def Let_def s Counter_sum basis_letters_def ..
  have e: "?F = [] \<Longrightarrow> ?L = []"
    by (simp add: basis_letters_def)
  show ?thesis
  proof (cases "?F = []")
    case True
    then show ?thesis using e cf by simp
  next
    case False
    then show ?thesis unfolding cf by simp
  qed
qed

lemma fold_max_Max: "fold max (map snd others) (snd first) = Max (snd ` set (first # others))"
  using Max.set_eq_fold[of "snd first" "map snd others"] by simp

lemma fold_min_Min: "fold min (map snd others) (snd first) = Min (snd ` set (first # others))"
  using Min.set_eq_fold[of "snd first" "map snd others"] by simp

lemma normalize_letter_frequencies_eq:
  "tbl \<noteq> [] \<Longrightarrow>
   normalize_letter_frequencies tbl =
     (if Max (snd ` set tbl) = Min (snd ` set tbl) then map (\<lambda>(letter, _). (letter, 5)) tbl
      else map (\<lambda>(letter, v).
                  (letter, ((v - Min (snd ` set tbl)) / (Max (snd ` set tbl) - Min (snd ` set tbl))) * 10))
               tbl)"
proof (cases tbl)
  case Nil
  assume "tbl \<noteq> []"
  with Nil show ?thesis by simp
next
  case (Cons first others)
  show ?thesis
    unfolding Cons normalize_letter_frequencies_def list.case Let_def fold_max_Max fold_min_Min ..
qed

lemma rescale_bounds:
  fixes v mn mx :: rat
  assumes "mn \<le> v" "v \<le> mx" "mn < mx"
  shows "0 \<le> ((v - mn) / (mx - mn)) * 10" "((v - mn) / (mx - mn)) * 10 \<le> 10"
proof -
  define x where "x = (v - mn) / (mx - mn)"
  have d: "0 < mx - mn" using assms(3) by simp
  have "0 \<le> x" using assms(1) d by (simp add: x_def)
  moreover have "x \<le> 1" using assms(2) d by (simp add: x_def divide_le_eq)
  ultimately have "0 \<le> x * 10" "x * 10 \<le> 10" by simp_all
  then show "0 \<le> ((v - mn) / (mx - mn)) * 10" "((v - mn) / (mx - mn)) * 10 \<le> 10"
    unfolding x_def .
qed

lemma normalize_keys: "map fst (normalize_letter_frequencies tbl) = map fst tbl"
proof (cases "tbl = []")
  case True
  then show ?thesis by (simp add: normalize_letter_frequencies_def)
next
  case False
  have "map fst (map (\<lambda>(letter, v). (letter, g v)) tbl) = map fst tbl" for g :: "rat \<Rightarrow> rat"
    by (induction tbl) auto
  then show ?thesis
    using False by (simp add: normalize_letter_frequencies_eq)
qed

lemma score_get_nonneg:
  assumes "\<forall>p \<in> set letter_scores. 0 \<le> snd p"
  shows "0 \<le> score_get letter_scores l"
proof (cases "map_of letter_scores l")
  case None
  then show ?thesis by (simp add: score_get_def)
next
  case (Some v)
  then have "(l, v) \<in> set letter_scores" by (rule map_of_SomeD)
  with assms have "0 \<le> v" by force
  with Some show ?thesis by (simp add: score_get_def)
qed

lemma distinct_sum_le_all_sum:
  fixes f :: "char \<Rightarrow> rat"
  assumes "\<And>l. 0 \<le> f l"
  shows "sum_list (map f (remdups w)) \<le> sum_list (map f w) \<and>
         (sum_list (map f (remdups w)) < sum_list (map f w) \<longleftrightarrow>
            (\<exists>l. 2 \<le> count_list w l \<and> 0 < f l))"
proof (induction w)
  case Nil
  then show ?case by simp
next
  case (Cons x w)
  let ?d = "sum_list (map f (remdups w))" and ?a = "sum_list (map f w)"
  have ih1: "?d \<le> ?a" and ih2: "?d < ?a \<longleftrightarrow> (\<exists>l. 2 \<le> count_list w l \<and> 0 < f l)"
    using Cons.IH by simp_all
  have ex: "(\<exists>l. 2 \<le> count_list (x # w) l \<and> 0 < f l) \<longleftrightarrow>
            (x \<in> set w \<and> 0 < f x) \<or> (\<exists>l. 2 \<le> count_list w l \<and> 0 < f l)"
  proof -
    have c: "2 \<le> count_list (x # w) l \<longleftrightarrow> (l = x \<and> x \<in> set w) \<or> 2 \<le> count_list w l" for l
    proof (cases "l = x")
      case True
      have "1 \<le> count_list w x \<longleftrightarrow> x \<in> set w"
        using count_list_0_iff[of w x] by (cases "count_list w x") auto
      moreover have "2 \<le> count_list w x \<Longrightarrow> x \<in> set w"
        using count_list_0_iff[of w x] by (cases "count_list w x") auto
      ultimately show ?thesis using True by auto
    next
      case False
      then show ?thesis by simp
    qed
    show ?thesis unfolding c by blast
  qed
  show ?case
  proof (cases "x \<in> set w")
    case True
    then have d: "sum_list (map f (remdups (x # w))) = ?d" by simp
    have a: "sum_list (map f (x # w)) = f x + ?a" by simp
    have fx: "0 \<le> f x" by (rule assms)
    have "?d < f x + ?a \<longleftrightarrow> 0 < f x \<or> ?d < ?a"
      using ih1 fx by auto
    then show ?thesis
      unfolding d a ex ih2[symmetric] using True ih1 fx by auto
  next
    case False
    then have d: "sum_list (map f (remdups (x # w))) = f x + ?d" by simp
    have a: "sum_list (map f (x # w)) = f x + ?a" by simp
    show ?thesis
      unfolding d a ex ih2[symmetric] using False ih1 by auto
  qed
qed

lemmas score_eval =
  calculate_letter_frequency_def Counter_def sort_desc_def length_prefix_match_def
  normalize_letter_frequencies_def calculate_guess_score_def score_get_def slice_to_def
  recommend_guesses_def Let_def


text \<open>
  Claim C8. For every basis word list, length and prefix: when no basis word has the
  length and the prefix, or the words that have them are empty once the prefix is
  stripped, the frequency analyser returns the empty table (and divides by nothing);
  otherwise the table has one entry for each letter counted and its percentages sum to
  exactly 100.
\<close>

theorem calculate_letter_frequency_percentages:
  "(filter (length_prefix_match len pfx) word_list = [] \<or> basis_letters word_list len pfx = []
      \<longrightarrow> calculate_letter_frequency word_list len pfx = []) \<and>
   (filter (length_prefix_match len pfx) word_list \<noteq> [] \<and> basis_letters word_list len pfx \<noteq> []
      \<longrightarrow> sum_list (map snd (calculate_letter_frequency word_list len pfx)) = 100 \<and>
          distinct (map fst (calculate_letter_frequency word_list len pfx)) \<and>
          fst ` set (calculate_letter_frequency word_list len pfx) =
            set (basis_letters word_list len pfx))"
proof -
  let ?F = "filter (length_prefix_match len pfx) word_list"
  let ?L = "basis_letters word_list len pfx"
  let ?P = "map (\<lambda>(letter, count). (letter, (rat_of_nat count / rat_of_nat (length ?L)) * 100))
                (Counter ?L)"
  have e: "?F = [] \<Longrightarrow> ?L = []"
    by (simp add: basis_letters_def)
  have a: "?F = [] \<or> ?L = [] \<longrightarrow> calculate_letter_frequency word_list len pfx = []"
    using e by (auto simp: calculate_letter_frequency_eq)
  have b: "sum_list (map snd (calculate_letter_frequency word_list len pfx)) = 100"
       "distinct (map fst (calculate_letter_frequency word_list len pfx))"
       "fst ` set (calculate_letter_frequency word_list len pfx) = set ?L"
    if n: "?L \<noteq> []"
  proof -
    have c: "calculate_letter_frequency word_list len pfx = sort_desc snd ?P"
      using n by (simp add: calculate_letter_frequency_eq)
    have "sum_list (map snd ?P) = (rat_of_nat (length ?L) / rat_of_nat (length ?L)) * 100"
      unfolding percentages_sum Counter_sum ..
    also have "\<dots> = 100" using n by simp
    finally show "sum_list (map snd (calculate_letter_frequency word_list len pfx)) = 100"
      unfolding c sum_list_sort_desc .
    show "distinct (map fst (calculate_letter_frequency word_list len pfx))"
      unfolding c distinct_map_fst_sort_desc map_fst_percent by (rule Counter_distinct)
    have "fst ` set ?P = set (map fst ?P)" by (simp only: set_map)
    also have "\<dots> = set ?L" unfolding map_fst_percent using Counter_keys[of ?L] by simp
    finally show "fst ` set (calculate_letter_frequency word_list len pfx) = set ?L"
      unfolding c by (simp add: sort_desc_def)
  qed
  from a b show ?thesis by blast
qed

text \<open>
  The theorem at the three words of the prefix test, two of which begin with \<^verbatim>\<open>ap\<close>, and
  at a basis whose only word is the prefix itself.
\<close>

theorem calculate_letter_frequency_percentages_witness:
  "calculate_letter_frequency [''apple'', ''apply'', ''about''] 5 (Some ''ap'') =
     [(CHR ''p'', 100 / 3), (CHR ''l'', 100 / 3), (CHR ''e'', 50 / 3), (CHR ''y'', 50 / 3)] \<and>
   basis_letters [''apple'', ''apply'', ''about''] 5 (Some ''ap'') = ''pleply'' \<and>
   sum_list (map snd (calculate_letter_frequency [''apple'', ''apply'', ''about''] 5 (Some ''ap'')))
     = 100 \<and>
   basis_letters [''apple''] 5 (Some ''apple'') = [] \<and>
   calculate_letter_frequency [''apple''] 5 (Some ''apple'') = []"
proof -
  have b: "basis_letters [''apple'', ''apply'', ''about''] 5 (Some ''ap'') = ''pleply''"
          "basis_letters [''apple''] 5 (Some ''apple'') = []"
    by (simp_all add: basis_letters_def length_prefix_match_def)
  have f: "filter (length_prefix_match 5 (Some ''ap'')) [''apple'', ''apply'', ''about''] \<noteq> []"
    by (simp add: length_prefix_match_def)
  have e: "calculate_letter_frequency [''apple'', ''apply'', ''about''] 5 (Some ''ap'') =
     [(CHR ''p'', 100 / 3), (CHR ''l'', 100 / 3), (CHR ''e'', 50 / 3), (CHR ''y'', 50 / 3)]"
    by (simp add: score_eval)
  have "sum_list (map snd
          (calculate_letter_frequency [''apple'', ''apply'', ''about''] 5 (Some ''ap''))) = 100"
    using calculate_letter_frequency_percentages[of 5 "Some ''ap''"
            "[''apple'', ''apply'', ''about'']"] b f
    by simp
  moreover have "calculate_letter_frequency [''apple''] 5 (Some ''apple'') = []"
    using calculate_letter_frequency_percentages[of 5 "Some ''apple''" "[''apple'']"] b
    by simp
  ultimately show ?thesis using b e by simp
qed

text \<open>
  Claim C5. The normaliser maps the empty table to the empty table and keeps the letters
  of any table; in a table that is not empty and whose least value equals its greatest,
  every letter gets 5; otherwise every value lies between 0 and 10, each letter of the
  greatest frequency gets 10 and each letter of the least frequency gets 0.
\<close>

theorem normalize_letter_frequencies_contract:
  "normalize_letter_frequencies [] = [] \<and>
   map fst (normalize_letter_frequencies tbl) = map fst tbl \<and>
   (tbl \<noteq> [] \<and> Min (snd ` set tbl) = Max (snd ` set tbl) \<longrightarrow>
      (\<forall>p \<in> set (normalize_letter_frequencies tbl). snd p = 5)) \<and>
   (tbl \<noteq> [] \<and> Min (snd ` set tbl) \<noteq> Max (snd ` set tbl) \<longrightarrow>
      (\<forall>p \<in> set (normalize_letter_frequencies tbl). 0 \<le> snd p \<and> snd p \<le> 10) \<and>
      (\<forall>i < length tbl. snd (tbl ! i) = Max (snd ` set tbl) \<longrightarrow>
          normalize_letter_frequencies tbl ! i = (fst (tbl ! i), 10)) \<and>
      (\<forall>i < length tbl. snd (tbl ! i) = Min (snd ` set tbl) \<longrightarrow>
          normalize_letter_frequencies tbl ! i = (fst (tbl ! i), 0)))"
proof -
  let ?mx = "Max (snd ` set tbl)" and ?mn = "Min (snd ` set tbl)"
  let ?N = "normalize_letter_frequencies tbl"
  have a: "normalize_letter_frequencies [] = []"
    by (simp add: normalize_letter_frequencies_def)
  have b: "\<forall>p \<in> set ?N. snd p = 5" if "tbl \<noteq> []" "?mn = ?mx"
    using that by (auto simp: normalize_letter_frequencies_eq)
  have c: "(\<forall>p \<in> set ?N. 0 \<le> snd p \<and> snd p \<le> 10) \<and>
           (\<forall>i < length tbl. snd (tbl ! i) = ?mx \<longrightarrow> ?N ! i = (fst (tbl ! i), 10)) \<and>
           (\<forall>i < length tbl. snd (tbl ! i) = ?mn \<longrightarrow> ?N ! i = (fst (tbl ! i), 0))"
    if ne: "tbl \<noteq> []" and d: "?mn \<noteq> ?mx"
  proof -
    have N: "?N = map (\<lambda>(letter, v). (letter, ((v - ?mn) / (?mx - ?mn)) * 10)) tbl"
      using ne d by (simp add: normalize_letter_frequencies_eq)
    have fin: "finite (snd ` set tbl)" "snd ` set tbl \<noteq> {}" using ne by simp_all
    have le: "?mn \<le> ?mx" using fin by (simp add: Min_le_iff)
    with d have lt: "?mn < ?mx" by simp
    have rng: "?mn \<le> v \<and> v \<le> ?mx" if "(l, v) \<in> set tbl" for l v
    proof -
      have "v \<in> snd ` set tbl" using that by force
      then show ?thesis using fin(1) by simp
    qed
    have 1: "\<forall>p \<in> set ?N. 0 \<le> snd p \<and> snd p \<le> 10"
    proof
      fix p assume "p \<in> set ?N"
      then obtain l v where lv: "(l, v) \<in> set tbl" and p: "p = (l, ((v - ?mn) / (?mx - ?mn)) * 10)"
        unfolding N by auto
      from rng[OF lv] lt show "0 \<le> snd p \<and> snd p \<le> 10"
        unfolding p snd_conv using rescale_bounds[of ?mn v ?mx] by blast
    qed
    have one: "(?mx - ?mn) / (?mx - ?mn) = 1" using lt by simp
    have nth: "?N ! i = (fst (tbl ! i), ((snd (tbl ! i) - ?mn) / (?mx - ?mn)) * 10)"
      if "i < length tbl" for i
      unfolding N using that by (simp add: case_prod_beta)
    have 2: "\<forall>i < length tbl. snd (tbl ! i) = ?mx \<longrightarrow> ?N ! i = (fst (tbl ! i), 10)"
    proof (intro allI impI)
      fix i assume i: "i < length tbl" and m: "snd (tbl ! i) = ?mx"
      show "?N ! i = (fst (tbl ! i), 10)"
        unfolding nth[OF i] m one by simp
    qed
    have 3: "\<forall>i < length tbl. snd (tbl ! i) = ?mn \<longrightarrow> ?N ! i = (fst (tbl ! i), 0)"
    proof (intro allI impI)
      fix i assume i: "i < length tbl" and m: "snd (tbl ! i) = ?mn"
      show "?N ! i = (fst (tbl ! i), 0)"
        unfolding nth[OF i] m by simp
    qed
    from 1 2 3 show ?thesis by blast
  qed
  from a b c normalize_keys[of tbl] show ?thesis by blast
qed

text \<open>The theorem at the table of the normalisation test, and at a table of equal values.\<close>

theorem normalize_letter_frequencies_contract_witness:
  "Min (snd ` set [(CHR ''a'', 20 :: rat), (CHR ''b'', 10), (CHR ''c'', 5)]) = 5 \<and>
   Max (snd ` set [(CHR ''a'', 20 :: rat), (CHR ''b'', 10), (CHR ''c'', 5)]) = 20 \<and>
   normalize_letter_frequencies [(CHR ''a'', 20), (CHR ''b'', 10), (CHR ''c'', 5)] ! 0 =
     (CHR ''a'', 10) \<and>
   normalize_letter_frequencies [(CHR ''a'', 20), (CHR ''b'', 10), (CHR ''c'', 5)] ! 2 =
     (CHR ''c'', 0) \<and>
   normalize_letter_frequencies [(CHR ''a'', 20), (CHR ''b'', 10), (CHR ''c'', 5)] =
     [(CHR ''a'', 10), (CHR ''b'', 10 / 3), (CHR ''c'', 0)] \<and>
   normalize_letter_frequencies [(CHR ''a'', 10), (CHR ''b'', 10), (CHR ''c'', 10)] =
     [(CHR ''a'', 5), (CHR ''b'', 5), (CHR ''c'', 5)]"
proof -
  let ?T = "[(CHR ''a'', 20 :: rat), (CHR ''b'', 10), (CHR ''c'', 5)]"
  have m: "Min (snd ` set ?T) = 5" "Max (snd ` set ?T) = 20"
    by simp_all
  have "normalize_letter_frequencies ?T ! 0 = (CHR ''a'', 10) \<and>
        normalize_letter_frequencies ?T ! 2 = (CHR ''c'', 0)"
    using normalize_letter_frequencies_contract[of ?T] m by simp
  moreover have "normalize_letter_frequencies ?T =
                   [(CHR ''a'', 10), (CHR ''b'', 10 / 3), (CHR ''c'', 0)]"
    by (simp add: score_eval)
  moreover have "normalize_letter_frequencies [(CHR ''a'', 10), (CHR ''b'', 10), (CHR ''c'', 10)] =
                   [(CHR ''a'', 5), (CHR ''b'', 5), (CHR ''c'', 5)]"
    by (simp add: score_eval)
  ultimately show ?thesis using m by simp
qed

text \<open>
  Claim C6. For every letter-score table without a negative score (such is every
  normalised table) and every word, the guess score at guess index 3, summed over all
  letter occurrences, is at least the guess score at guess index 2, summed over the
  distinct letters; it is strictly greater exactly when some letter that occurs at least
  twice in the word has a positive score.
\<close>

theorem calculate_guess_score_duplicates:
  assumes "\<forall>p \<in> set letter_scores. 0 \<le> snd p"
  shows "calculate_guess_score word letter_scores 2 \<le> calculate_guess_score word letter_scores 3 \<and>
         (calculate_guess_score word letter_scores 2 < calculate_guess_score word letter_scores 3
            \<longleftrightarrow> (\<exists>l. 2 \<le> count_list word l \<and> 0 < score_get letter_scores l))"
  using distinct_sum_le_all_sum[of "score_get letter_scores" word] score_get_nonneg[OF assms]
  by (simp add: calculate_guess_score_def)

text \<open>The theorem at the word and the table of the scoring test.\<close>

theorem calculate_guess_score_duplicates_witness:
  "calculate_guess_score ''apple''
     [(CHR ''a'', 10), (CHR ''p'', 5), (CHR ''l'', 3), (CHR ''e'', 8)] 2 = 26 \<and>
   calculate_guess_score ''apple''
     [(CHR ''a'', 10), (CHR ''p'', 5), (CHR ''l'', 3), (CHR ''e'', 8)] 3 = 31 \<and>
   2 \<le> count_list ''apple'' (CHR ''p'') \<and>
   0 < score_get [(CHR ''a'', 10), (CHR ''p'', 5), (CHR ''l'', 3), (CHR ''e'', 8)] (CHR ''p'') \<and>
   calculate_guess_score ''apple''
     [(CHR ''a'', 10), (CHR ''p'', 5), (CHR ''l'', 3), (CHR ''e'', 8)] 2
   < calculate_guess_score ''apple''
       [(CHR ''a'', 10), (CHR ''p'', 5), (CHR ''l'', 3), (CHR ''e'', 8)] 3"
proof -
  let ?T = "[(CHR ''a'', 10 :: rat), (CHR ''p'', 5), (CHR ''l'', 3), (CHR ''e'', 8)]"
  have p: "2 \<le> count_list ''apple'' (CHR ''p'') \<and> 0 < score_get ?T (CHR ''p'')"
    by (simp add: score_get_def)
  have n: "\<forall>p \<in> set ?T. 0 \<le> snd p" by simp
  have "calculate_guess_score ''apple'' ?T 2 < calculate_guess_score ''apple'' ?T 3"
    using calculate_guess_score_duplicates[OF n, of "''apple''"] p by blast
  moreover have "calculate_guess_score ''apple'' ?T 2 = 26"
                "calculate_guess_score ''apple'' ?T 3 = 31"
    by (simp_all add: score_eval)
  ultimately show ?thesis using p by simp
qed

text \<open>
  A repeated letter does not raise the score when its score is 0, as the score of the
  least frequent letter is: the table is the normalised frequency table of the basis
  \<^verbatim>\<open>aab\<close>, and the word \<^verbatim>\<open>abb\<close> scores 10 at both guess indices.
\<close>

theorem calculate_guess_score_counterexample:
  "\<not> distinct ''abb'' \<and>
   normalize_letter_frequencies (calculate_letter_frequency [''aab''] 3 None) =
     [(CHR ''a'', 10), (CHR ''b'', 0)] \<and>
   \<not> calculate_guess_score ''abb''
        (normalize_letter_frequencies (calculate_letter_frequency [''aab''] 3 None)) 2
     < calculate_guess_score ''abb''
        (normalize_letter_frequencies (calculate_letter_frequency [''aab''] 3 None)) 3"
  by (simp add: score_eval)

section \<open>The recommender and the filler finder\<close>

lemma sort_desc_sorted: "sorted_wrt (\<lambda>a b. key a \<ge> key b) (sort_desc key xs)"
proof -
  have "sorted (map (\<lambda>x. - key x) (sort_desc key xs))"
    by (simp add: sort_desc_def)
  then show ?thesis
    by (simp add: sorted_map sorted_wrt_iff_nth_less)
qed

lemma sort_desc_stable:
  "filter (\<lambda>x. key x = k) (sort_desc key xs) = filter (\<lambda>x. key x = k) xs"
  using sort_key_stable[of "\<lambda>x. - key x" "- k" xs] by (simp add: sort_desc_def)

lemma set_sort_desc [simp]: "set (sort_desc key xs) = set xs"
  by (simp add: sort_desc_def)

lemma length_sort_desc [simp]: "length (sort_desc key xs) = length xs"
  by (simp add: sort_desc_def)

lemma filter_take_prefix: "prefix (filter P (take n xs)) (filter P xs)"
proof -
  have "filter P xs = filter P (take n xs) @ filter P (drop n xs)"
    by (metis append_take_drop_id filter_append)
  then show ?thesis by (metis prefixI)
qed

lemma sorted_wrt_take: "sorted_wrt R xs \<Longrightarrow> sorted_wrt R (take n xs)"
  by (metis append_take_drop_id sorted_wrt_append)

lemma sort_desc_map:
  "sort_desc snd (map (\<lambda>x. (x, f x)) xs) = map (\<lambda>x. (x, f x)) (sort_desc f xs)"
proof -
  have ins: "insort_key (\<lambda>p. - snd p) (x, f x) (map (\<lambda>x. (x, f x)) ys) =
             map (\<lambda>x. (x, f x)) (insort_key (\<lambda>x. - f x) x ys)" for x ys
    by (induction ys) simp_all
  show ?thesis
    unfolding sort_desc_def by (induction xs) (simp_all add: ins)
qed

lemma sorted_desc_take_drop:
  assumes "sorted_wrt (\<lambda>a b. key a \<ge> key b) xs"
      and "x \<in> set (take n xs)" and "y \<in> set (drop n xs)"
  shows "key y \<le> key x"
proof -
  have "sorted_wrt (\<lambda>a b. key a \<ge> key b) (take n xs @ drop n xs)"
    using assms(1) by simp
  then show ?thesis
    using assms(2,3) unfolding sorted_wrt_append by blast
qed



lemma filler_score_card: "filler_score vl w = int (card (vl \<inter> set w))"
proof -
  have "{letter \<in> vl. letter \<in> set w} = vl \<inter> set w" by blast
  then show ?thesis by (simp add: filler_score_def)
qed

lemma find_filler_words_eq:
  "find_filler_words d wl vl =
     take 9 (sort_desc (filler_score vl) (filler_candidates d wl vl))"
  by (simp add: find_filler_words_def filler_candidates_def Let_def sort_desc_map take_map
                comp_def)





text \<open>
  Claim C9. Every word the filler finder returns has the target length and contains a
  variable letter. It returns the first \<open>min 9 n\<close> of the \<open>n\<close> candidates in descending
  order of the number of distinct variable letters they contain (a letter counts once
  however often the word repeats it), the words of equal count in the order of the
  dictionary: no candidate left out counts more than a word returned.
\<close>

theorem find_filler_words_contract:
  "(\<forall>w \<in> set (find_filler_words d wl vl).
       int (length w) = wl \<and> (\<exists>letter \<in> vl. letter \<in> set w)) \<and>
   length (find_filler_words d wl vl) = min 9 (length (filler_candidates d wl vl)) \<and>
   sorted_wrt (\<lambda>a b. int (card (vl \<inter> set a)) \<ge> int (card (vl \<inter> set b)))
      (find_filler_words d wl vl) \<and>
   (\<forall>k. prefix (filter (\<lambda>w. int (card (vl \<inter> set w)) = k) (find_filler_words d wl vl))
               (filter (\<lambda>w. int (card (vl \<inter> set w)) = k) (filler_candidates d wl vl))) \<and>
   (\<exists>others. mset (find_filler_words d wl vl @ others) = mset (filler_candidates d wl vl) \<and>
      (\<forall>w \<in> set (find_filler_words d wl vl). \<forall>v \<in> set others.
          card (vl \<inter> set v) \<le> card (vl \<inter> set w)))"
proof -
  let ?C = "filler_candidates d wl vl"
  let ?sc = "\<lambda>w. int (card (vl \<inter> set w))"
  let ?S = "sort_desc ?sc ?C"
  let ?R = "find_filler_words d wl vl"
  have sc: "filler_score vl = ?sc"
    by (rule ext) (rule filler_score_card)
  have R: "?R = take 9 ?S"
    by (simp add: find_filler_words_eq sc)
  have a: "\<forall>w \<in> set ?R. int (length w) = wl \<and> (\<exists>letter \<in> vl. letter \<in> set w)"
  proof
    fix w assume "w \<in> set ?R"
    then have "w \<in> set ?S" unfolding R by (rule in_set_takeD)
    then have "w \<in> set ?C" by simp
    then show "int (length w) = wl \<and> (\<exists>letter \<in> vl. letter \<in> set w)"
      by (simp add: filler_candidates_def)
  qed
  have b: "length ?R = min 9 (length ?C)"
    by (simp add: R min.commute)
  have c: "sorted_wrt (\<lambda>a b. ?sc a \<ge> ?sc b) ?R"
    unfolding R by (rule sorted_wrt_take) (rule sort_desc_sorted)
  have e: "\<forall>k. prefix (filter (\<lambda>w. ?sc w = k) ?R) (filter (\<lambda>w. ?sc w = k) ?C)"
  proof
    fix k
    have "prefix (filter (\<lambda>w. ?sc w = k) (take 9 ?S)) (filter (\<lambda>w. ?sc w = k) ?S)"
      by (rule filter_take_prefix)
    then show "prefix (filter (\<lambda>w. ?sc w = k) ?R) (filter (\<lambda>w. ?sc w = k) ?C)"
      by (simp add: R sort_desc_stable)
  qed
  have f1: "mset (?R @ drop 9 ?S) = mset ?C"
    by (simp add: R sort_desc_def flip: mset_append)
  have f2: "\<forall>w \<in> set ?R. \<forall>v \<in> set (drop 9 ?S). card (vl \<inter> set v) \<le> card (vl \<inter> set w)"
  proof (intro ballI)
    fix w v assume "w \<in> set ?R" "v \<in> set (drop 9 ?S)"
    then have "?sc v \<le> ?sc w"
      unfolding R by (intro sorted_desc_take_drop[OF sort_desc_sorted[of ?sc ?C]])
    then show "card (vl \<inter> set v) \<le> card (vl \<inter> set w)" by simp
  qed
  from f1 f2 have f: "\<exists>others. mset (?R @ others) = mset ?C \<and>
      (\<forall>w \<in> set ?R. \<forall>v \<in> set others. card (vl \<inter> set v) \<le> card (vl \<inter> set w))"
    by blast
  from a b c e f show ?thesis by blast
qed

text \<open>
  The theorem at a dictionary of five words and the variable letters \<^verbatim>\<open>a\<close> and \<^verbatim>\<open>c\<close>:
  \<^verbatim>\<open>ca\<close> has both, \<^verbatim>\<open>ab\<close> and \<^verbatim>\<open>cb\<close> have one each and keep their order, \<^verbatim>\<open>aa\<close>
  counts its letter once.
\<close>

theorem find_filler_words_contract_witness:
  "find_filler_words [''ab'', ''xyz'', ''zz'', ''cb'', ''ca'', ''aa''] 2 {CHR ''a'', CHR ''c''} =
     [''ca'', ''ab'', ''cb'', ''aa''] \<and>
   filler_candidates [''ab'', ''xyz'', ''zz'', ''cb'', ''ca'', ''aa''] 2 {CHR ''a'', CHR ''c''} =
     [''ab'', ''cb'', ''ca'', ''aa''] \<and>
   filler_score {CHR ''a'', CHR ''c''} ''aa'' = 1 \<and>
   length (find_filler_words [''ab'', ''xyz'', ''zz'', ''cb'', ''ca'', ''aa''] 2
             {CHR ''a'', CHR ''c''}) = 4"
proof -
  have c: "filler_candidates [''ab'', ''xyz'', ''zz'', ''cb'', ''ca'', ''aa''] 2
             {CHR ''a'', CHR ''c''} = [''ab'', ''cb'', ''ca'', ''aa'']"
    by (simp add: filler_candidates_def)
  have "length (find_filler_words [''ab'', ''xyz'', ''zz'', ''cb'', ''ca'', ''aa''] 2
             {CHR ''a'', CHR ''c''}) =
        min 9 (length (filler_candidates [''ab'', ''xyz'', ''zz'', ''cb'', ''ca'', ''aa''] 2
             {CHR ''a'', CHR ''c''}))"
    using find_filler_words_contract[of "[''ab'', ''xyz'', ''zz'', ''cb'', ''ca'', ''aa'']" 2
            "{CHR ''a'', CHR ''c''}"]
    by blast
  then have "length (find_filler_words [''ab'', ''xyz'', ''zz'', ''cb'', ''ca'', ''aa''] 2
             {CHR ''a'', CHR ''c''}) = 4"
    unfolding c by simp
  moreover have "find_filler_words [''ab'', ''xyz'', ''zz'', ''cb'', ''ca'', ''aa''] 2
             {CHR ''a'', CHR ''c''} = [''ca'', ''ab'', ''cb'', ''aa'']"
    by (simp add: find_filler_words_def filler_score_card sort_desc_def)
  moreover have "filler_score {CHR ''a'', CHR ''c''} ''aa'' = 1"
    by (simp add: filler_score_card)
  ultimately show ?thesis using c by simp
qed

section \<open>The request handler: validation of the history, filler suggestions\<close>

lemma length_lower [simp]: "length (lower s) = length s"
  by (simp add: lower_def)

lemma list_all_lower: "list_all P (lower s) = list_all (\<lambda>c. P (lower_char c)) s"
  by (simp add: lower_def list_all_iff)

lemma apply_history_wellformed:
  assumes lens: "\<forall>w \<in> set pw. int (length w) = wl"
      and g: "entry_guess entry = Some g" and f: "entry_feedback entry = Some f"
      and wf: "entry_wellformed wl entry"
  shows "apply_history wl pw (entry # rest) =
         apply_history wl (filter (retained_spec (zip (lower g) (lower f))) pw) rest"
proof -
  from wf g f have l: "int (length g) = wl" "int (length f) = wl"
    and c: "list_all (\<lambda>c. lower_char c \<in> set ''gyb'') f"
    by (simp_all add: entry_wellformed_def)
  have "\<forall>w \<in> set pw. length (zip (lower g) (lower f)) \<le> length w"
    using lens l by auto
  then have "filter_possible_words pw (zip (lower g) (lower f)) =
             Inr (filter (retained_spec (zip (lower g) (lower f))) pw)"
    by (rule filter_possible_words_general)
  then show ?thesis
    using l c g f by (simp add: list_all_lower Let_def)
qed


lemma apply_history_valid:
  assumes "\<forall>w \<in> set pw. int (length w) = wl" and "list_all (entry_wellformed wl) h"
  shows "\<exists>pw'. apply_history wl pw h = Inr pw' \<and> set pw' \<subseteq> set pw"
  using assms
proof (induction h arbitrary: pw)
  case Nil
  then show ?case by simp
next
  case (Cons entry rest)
  from Cons.prems(2) have wf: "entry_wellformed wl entry" and r: "list_all (entry_wellformed wl) rest"
    by simp_all
  from wf obtain g f where gf: "entry_guess entry = Some g" "entry_feedback entry = Some f"
    by (auto simp: entry_wellformed_def split: option.splits)
  let ?pw = "filter (retained_spec (zip (lower g) (lower f))) pw"
  have step: "apply_history wl pw (entry # rest) = apply_history wl ?pw rest"
    using Cons.prems(1) gf wf by (rule apply_history_wellformed)
  have "\<forall>w \<in> set ?pw. int (length w) = wl" using Cons.prems(1) by simp
  from Cons.IH[OF this r] obtain pw' where "apply_history wl ?pw rest = Inr pw'" "set pw' \<subseteq> set ?pw"
    by blast
  then show ?case unfolding step by auto
qed


lemma length_prefix_match_length:
  "\<forall>w \<in> set (filter (length_prefix_match wl pfx) d). int (length w) = wl"
  by (simp add: length_prefix_match_def)


lemma add_letters_same_length:
  "length word = length vp \<Longrightarrow>
   add_letters (pre @ vp) (length pre) word = Inr (pre @ map2 insert word vp)"
proof (induction word arbitrary: pre vp)
  case Nil
  then show ?case by simp
next
  case (Cons c word)
  then obtain S vp' where vp: "vp = S # vp'" and l: "length word = length vp'"
    by (cases vp) auto
  have "add_letters ((pre @ [insert c S]) @ vp') (length (pre @ [insert c S])) word =
        Inr ((pre @ [insert c S]) @ map2 insert word vp')"
    using l by (rule Cons.IH)
  then show ?case
    by (simp add: vp)
qed

lemma add_letters_whole:
  "length word = length vp \<Longrightarrow> add_letters vp 0 word = Inr (map2 insert word vp)"
  using add_letters_same_length[of word vp "[]"] by simp

lemma add_words_same_length:
  "\<forall>w \<in> set ws. length w = length vp \<Longrightarrow>
   add_words vp ws = Inr (map (\<lambda>i. vp ! i \<union> (\<lambda>w. w ! i) ` set ws) [0..<length vp])"
proof (induction ws arbitrary: vp)
  case Nil
  then show ?case by (simp add: map_nth)
next
  case (Cons w ws)
  have lw: "length w = length vp" using Cons.prems by simp
  let ?vp = "map2 insert w vp"
  have l: "length ?vp = length vp" using lw by simp
  have "\<forall>w \<in> set ws. length w = length ?vp" using Cons.prems l by simp
  from Cons.IH[OF this]
  have "add_words ?vp ws = Inr (map (\<lambda>i. ?vp ! i \<union> (\<lambda>w. w ! i) ` set ws) [0..<length vp])"
    unfolding l .
  moreover have "map (\<lambda>i. ?vp ! i \<union> (\<lambda>w. w ! i) ` set ws) [0..<length vp] =
                 map (\<lambda>i. vp ! i \<union> (\<lambda>w. w ! i) ` set (w # ws)) [0..<length vp]"
    using lw by (intro map_cong) auto
  ultimately show ?case
    by (simp add: add_letters_whole[OF lw])
qed

lemma find_variable_letter_positions_same_length:
  assumes "\<forall>w \<in> set ws. length w = n" and "ws \<noteq> []"
  shows "find_variable_letter_positions ws =
     Inr (filter (\<lambda>(pos, letters). card letters > 1)
            (map (\<lambda>i. (i, letters_at ws i)) [0..<n]))"
proof -
  obtain first rest where ws: "ws = first # rest" using assms(2) by (cases ws) auto
  have n: "length first = n" using assms(1) ws by simp
  have "\<forall>w \<in> set ws. length w = length (replicate n ({}::char set))"
    using assms(1) by simp
  then have "add_words (replicate n {}) ws =
     Inr (map (\<lambda>i. replicate n {} ! i \<union> (\<lambda>w. w ! i) ` set ws) [0..<length (replicate n ({}::char set))])"
    by (rule add_words_same_length)
  moreover have "map (\<lambda>i. replicate n {} ! i \<union> (\<lambda>w. w ! i) ` set ws) [0..<n] =
                 map (letters_at ws) [0..<n]"
    by (intro map_cong) (auto simp: letters_at_def)
  ultimately have a: "add_words (replicate n {}) ws = Inr (map (letters_at ws) [0..<n])"
    by simp
  have z: "zip [0..<n] (map (letters_at ws) [0..<n]) = map (\<lambda>i. (i, letters_at ws i)) [0..<n]"
    by (simp add: zip_map2 zip_same_conv_map)
  show ?thesis
    unfolding find_variable_letter_positions_def ws list.case n
    using a[unfolded ws] z[unfolded ws] by simp
qed

lemma find_variable_letter_positions_total:
  assumes "\<forall>w \<in> set ws. length w = n"
  shows "\<exists>vp. find_variable_letter_positions ws = Inr vp \<and> (\<forall>p \<in> set vp. card (snd p) > 1)"
proof (cases "ws = []")
  case True
  then show ?thesis by (simp add: find_variable_letter_positions_def)
next
  case False
  let ?L = "filter (\<lambda>(pos, letters). card letters > 1) (map (\<lambda>i. (i, letters_at ws i)) [0..<n])"
  have "find_variable_letter_positions ws = Inr ?L"
    using assms False by (rule find_variable_letter_positions_same_length)
  moreover have "\<forall>p \<in> set ?L. card (snd p) > 1"
    by auto
  ultimately show ?thesis by blast
qed

lemma variable_letters_empty_iff:
  assumes "\<forall>p \<in> set vp. card (snd p) > 1"
  shows "\<Union> (set (map snd vp)) = {} \<longleftrightarrow> vp = []"
proof
  assume e: "\<Union> (set (map snd vp)) = {}"
  show "vp = []"
  proof (rule ccontr)
    assume "vp \<noteq> []"
    then obtain p where p: "p \<in> set vp" by (cases vp) auto
    with assms have "card (snd p) > 1" by blast
    then have "snd p \<noteq> {}" by auto
    with p e show False by auto
  qed
qed simp

lemma no_variable_positions_iff:
  assumes "\<forall>w \<in> set ws. length w = n" and "find_variable_letter_positions ws = Inr vp"
  shows "vp = [] \<longleftrightarrow> (\<forall>i < n. \<forall>w \<in> set ws. \<forall>v \<in> set ws. w ! i = v ! i)"
proof (cases "ws = []")
  case True
  with assms(2) show ?thesis by (simp add: find_variable_letter_positions_def)
next
  case False
  have "vp = filter (\<lambda>(pos, letters). card letters > 1) (map (\<lambda>i. (i, letters_at ws i)) [0..<n])"
    using find_variable_letter_positions_same_length[OF assms(1) False] assms(2) by simp
  then have "vp = [] \<longleftrightarrow> (\<forall>i < n. card (letters_at ws i) \<le> Suc 0)"
    by (auto simp: filter_empty_conv not_less)
  also have "\<dots> \<longleftrightarrow> (\<forall>i < n. \<forall>w \<in> set ws. \<forall>v \<in> set ws. w ! i = v ! i)"
    by (simp add: letters_at_def card_le_Suc0_iff_eq)
  finally show ?thesis .
qed

lemmas history_eval =
  calculate_next_move_def next_move_def lower_def lower_char_def
  length_prefix_match_def
  filter_eval




text \<open>
  Claim C10. For every valid request (a word length of at least 1, every history entry
  well formed) \<^verbatim>\<open>calculate_next_move\<close> returns a response; its \<open>remainingCount\<close> is the
  number of candidates left by replaying the history and its \<open>variablePositions\<close> are
  those of the candidates, none exactly when the candidates agree at every position. The
  \<open>fillerSuggestions\<close> are empty whenever 10 or fewer candidates remain or no position
  varies, and are the filler finder's words for the variable letters when more than 10
  candidates remain and some position varies.
\<close>

theorem next_move_fillers:
  assumes "1 \<le> wl" and "list_all (entry_wellformed wl) history"
  shows "\<exists>r pw. calculate_next_move d wl pfx history = Inr r \<and>
           apply_history wl (filter (length_prefix_match wl pfx) d) history = Inr pw \<and>
           remainingCount r = length pw \<and>
           find_variable_letter_positions pw = Inr (variablePositions r) \<and>
           (variablePositions r = [] \<longleftrightarrow>
              (\<forall>i < nat wl. \<forall>w \<in> set pw. \<forall>v \<in> set pw. w ! i = v ! i)) \<and>
           (length pw \<le> 10 \<or> variablePositions r = [] \<longrightarrow> fillerSuggestions r = []) \<and>
           (10 < length pw \<and> variablePositions r \<noteq> [] \<longrightarrow>
              fillerSuggestions r =
                find_filler_words d wl (\<Union> (set (map snd (variablePositions r)))))"
proof -
  let ?pw0 = "filter (length_prefix_match wl pfx) d"
  have l0: "\<forall>w \<in> set ?pw0. int (length w) = wl"
    by (rule length_prefix_match_length)
  from apply_history_valid[OF l0 assms(2)] obtain pw where
    pw: "apply_history wl ?pw0 history = Inr pw" and sub: "set pw \<subseteq> set ?pw0"
    by blast
  have l: "\<forall>w \<in> set pw. length w = nat wl"
    using sub l0 by auto
  from find_variable_letter_positions_total[OF l] obtain vp where
    vp: "find_variable_letter_positions pw = Inr vp" and c: "\<forall>p \<in> set vp. card (snd p) > 1"
    by blast
  define r where "r = \<lparr> recommendations =
                          recommend_guesses pw wl pfx 9 (int (length history + 1)) (Some d),
                        remainingWords = take 100 pw,
                        remainingCount = length pw,
                        variablePositions = vp,
                        fillerSuggestions =
                          (if \<Union> (set (map snd vp)) \<noteq> {} \<and> length pw > 10
                           then find_filler_words d wl (\<Union> (set (map snd vp))) else []),
                        guessCount = length history + 1 \<rparr>"
  have nm: "next_move d wl pfx history = Inr r"
    using assms(1) pw vp by (simp add: next_move_def ebind_def Let_def r_def)
  have 1: "calculate_next_move d wl pfx history = Inr r"
    by (simp add: calculate_next_move_def nm)
  have e: "\<Union> (set (map snd vp)) = {} \<longleftrightarrow> vp = []"
    using c by (rule variable_letters_empty_iff)
  have 2: "remainingCount r = length pw" and 3: "variablePositions r = vp"
    by (simp_all add: r_def)
  have 4: "vp = [] \<longleftrightarrow> (\<forall>i < nat wl. \<forall>w \<in> set pw. \<forall>v \<in> set pw. w ! i = v ! i)"
    using l vp by (rule no_variable_positions_iff)
  have 5: "length pw \<le> 10 \<or> vp = [] \<longrightarrow> fillerSuggestions r = []"
    using e by (auto simp: r_def)
  have 6: "10 < length pw \<and> vp \<noteq> [] \<longrightarrow>
             fillerSuggestions r = find_filler_words d wl (\<Union> (set (map snd vp)))"
    using e by (auto simp: r_def)
  show ?thesis
    using 1 pw 2 vp 4 5 6 unfolding 3[symmetric] by blast
qed

text \<open>
  The theorem at a dictionary of three words and one history entry, which leaves one
  candidate and so no filler suggestion.
\<close>

theorem next_move_fillers_witness:
  "(1::int) \<le> 2 \<and>
   list_all (entry_wellformed 2) [\<lparr>entry_guess = Some ''AB'', entry_feedback = Some ''gb''\<rparr>] \<and>
   apply_history 2 (filter (length_prefix_match 2 None) [''ab'', ''ac'', ''bc''])
     [\<lparr>entry_guess = Some ''AB'', entry_feedback = Some ''gb''\<rparr>] = Inr [''ac''] \<and>
   (\<exists>r. calculate_next_move [''ab'', ''ac'', ''bc''] 2 None
           [\<lparr>entry_guess = Some ''AB'', entry_feedback = Some ''gb''\<rparr>] = Inr r \<and>
        remainingCount r = 1 \<and> fillerSuggestions r = [])"
proof -
  let ?H = "[\<lparr>entry_guess = Some ''AB'', entry_feedback = Some ''gb''\<rparr>]"
  let ?D = "[''ab'', ''ac'', ''bc'']"
  have one: "(1::int) \<le> 2" by simp
  have wf: "list_all (entry_wellformed 2) ?H"
    by (simp add: entry_wellformed_def lower_char_def)
  have e: "apply_history 2 (filter (length_prefix_match 2 None) ?D) ?H = Inr [''ac'']"
    by (simp add: history_eval)
  from next_move_fillers[OF one wf, of ?D None] obtain r pw where
    r: "calculate_next_move ?D 2 None ?H = Inr r"
    and pw: "apply_history 2 (filter (length_prefix_match 2 None) ?D) ?H = Inr pw"
    and c: "remainingCount r = length pw"
    and f: "length pw \<le> 10 \<or> variablePositions r = [] \<longrightarrow> fillerSuggestions r = []"
    by blast
  from pw e have "pw = [''ac'']" by simp
  with c f have "remainingCount r = 1 \<and> fillerSuggestions r = []" by simp
  with r have "\<exists>r. calculate_next_move ?D 2 None ?H = Inr r \<and>
        remainingCount r = 1 \<and> fillerSuggestions r = []"
    by blast
  with one wf e show ?thesis by blast
qed

text \<open>
  The other branch: twelve one-letter words, eleven of them candidates with the prefix
  absent and the history empty. Position 0 varies and the filler words are computed.
\<close>

lemma next_move_fillers_example:
  "calculate_next_move
     [''a'', ''b'', ''c'', ''d'', ''e'', ''f'', ''g'', ''h'', ''i'', ''j'', ''k'', ''zz''] 1 None [] =
   Inr \<lparr> recommendations =
           [(''a'', 5), (''b'', 5), (''c'', 5), (''d'', 5), (''e'', 5), (''f'', 5), (''g'', 5),
            (''h'', 5), (''i'', 5)],
         remainingWords =
           [''a'', ''b'', ''c'', ''d'', ''e'', ''f'', ''g'', ''h'', ''i'', ''j'', ''k''],
         remainingCount = 11,
         variablePositions =
           [(0, {CHR ''a'', CHR ''b'', CHR ''c'', CHR ''d'', CHR ''e'', CHR ''f'', CHR ''g'',
                 CHR ''h'', CHR ''i'', CHR ''j'', CHR ''k''})],
         fillerSuggestions = [''a'', ''b'', ''c'', ''d'', ''e'', ''f'', ''g'', ''h'', ''i''],
         guessCount = 1 \<rparr>"
  by (simp add: history_eval score_eval find_variable_letter_positions_def
                find_filler_words_def filler_score_card insert_commute)

end
